theory Spec2Isabelle
  imports Main
begin

section \<open>The internal tab bar (src/internal/tab-bar.ts)\<close>

subsection \<open>Tabs, the store and the bar\<close>

text \<open>
  Tabs are DOM elements that the bar holds by reference and compares with \<open>===\<close>, so a
  tab is an address into a store of tab objects. The fields are the ones the bar reads
  and writes: \<open>index\<close>, the \<open>active\<close> property, and the presence of the \<open>active\<close>
  attribute (\<open>hasAttribute('active')\<close>), which the bar only reads.
\<close>

type_synonym tab_ref = nat

record tab =
  index :: int
  active :: bool
  active_attr :: bool

text \<open>
  What the bar does to the outside world, in the order it happens: a \<open>tabchange\<close> event
  with its \<open>detail.tab\<close>, a call of \<open>tab.focus()\<close>, a call of \<open>tab.scrollIntoView\<close>.
\<close>

datatype effect = Tabchange "tab_ref option" | Focus tab_ref | ScrollIntoView tab_ref

record bar_state =
  store :: "tab_ref \<Rightarrow> tab"
  priv_tabs :: "tab_ref list"
  priv_active :: "tab_ref option"
  effects :: "effect list"

text \<open>
  Modelled from the spec: the tab element's own \<open>active\<close> property (internal/tab.ts is not
  among the sources). The flow chart in the bar's setter and section 4.1 of the
  specification say that a tab whose flag changes from false to true dispatches
  \<open>tabchange\<close> for itself; any other assignment only stores the flag. The attribute is
  not touched by the assignment (the bar's own comment: it "might not have reflected to
  the other yet").
\<close>

definition tab_set_active :: "tab_ref \<Rightarrow> bool \<Rightarrow> bar_state \<Rightarrow> bar_state" where
  "tab_set_active t v s =
     (let was = active (store s t);
          s1 = s\<lparr>store := (store s)(t := (store s t)\<lparr>active := v\<rparr>)\<rparr>
      in if v \<and> \<not> was then s1\<lparr>effects := effects s1 @ [Tabchange (Some t)]\<rparr> else s1)"

subsection \<open>The \<open>active\<close> setter\<close>

text \<open>
  \<open>set active(tab)\<close>, lines 41-78. The list holds the state after each statement that
  follows the early return: after \<open>this._active = tab\<close>, after \<open>oldActive.active = false\<close>,
  and after \<open>tab.active = true\<close> (or the dispatch of \<open>tabchange\<close> with no tab). The
  early return gives the empty list. These are the instants at which the bar's state can
  be observed during one call.
\<close>

definition set_active_steps :: "bar_state \<Rightarrow> tab_ref option \<Rightarrow> bar_state list" where
  "set_active_steps s tab =
     (let oldActive = priv_active s in
      if tab = oldActive then []
      else
        let s1 = s\<lparr>priv_active := tab\<rparr>;
            s2 = (case oldActive of None \<Rightarrow> s1 | Some old \<Rightarrow> tab_set_active old False s1);
            s3 = (case tab of
                    Some t \<Rightarrow> tab_set_active t True s2
                  | None \<Rightarrow> s2\<lparr>effects := effects s2 @ [Tabchange None]\<rparr>)
        in [s1, s2, s3])"

definition set_active :: "bar_state \<Rightarrow> tab_ref option \<Rightarrow> bar_state" where
  "set_active s tab = last (s # set_active_steps s tab)"

text \<open>A sequence of calls of the setter: every state passed through, and the final one.\<close>

fun set_active_trace :: "bar_state \<Rightarrow> tab_ref option list \<Rightarrow> bar_state list" where
  "set_active_trace s [] = []"
| "set_active_trace s (tab # rest) =
     set_active_steps s tab @ set_active_trace (set_active s tab) rest"

fun set_active_all :: "bar_state \<Rightarrow> tab_ref option list \<Rightarrow> bar_state" where
  "set_active_all s [] = s"
| "set_active_all s (tab # rest) = set_active_all (set_active s tab) rest"

text \<open>
  \<open>_activateTab\<close>, lines 118-125, the listener for \<open>click\<close> and \<open>tabchange\<close>. Its
  argument is the result of \<open>_findEventTab\<close>.
\<close>

definition activateTab :: "bar_state \<Rightarrow> tab_ref option \<Rightarrow> bar_state" where
  "activateTab s found =
     (case found of
        None \<Rightarrow> s
      | Some tab \<Rightarrow>
          if Some tab = priv_active s then s
          else let s1 = set_active s (Some tab)
               in s1\<lparr>effects := effects s1 @ [ScrollIntoView tab]\<rparr>)"

subsection \<open>\<open>_onSlotchange\<close>\<close>

text \<open>
  The loop of lines 103-114 over \<open>this._tabs\<close>, with the counter \<open>i\<close> and the local
  \<open>newActive\<close>; the list argument is the part of \<open>this._tabs\<close> from position \<open>i\<close> on.
\<close>

fun slot_loop :: "tab_ref list \<Rightarrow> int \<Rightarrow> tab_ref option \<Rightarrow> bar_state \<Rightarrow> tab_ref option \<times> bar_state" where
  "slot_loop [] i newActive s = (newActive, s)"
| "slot_loop (tab # rest) i newActive s =
     (let s1 = s\<lparr>store := (store s)(tab := (store s tab)\<lparr>index := i\<rparr>)\<rparr> in
      if newActive \<noteq> None then slot_loop rest (i + 1) newActive (tab_set_active tab False s1)
      else if active (store s1 tab) \<or> active_attr (store s1 tab)
        then slot_loop rest (i + 1) (Some tab) s1
      else slot_loop rest (i + 1) newActive s1)"

definition onSlotchange :: "bar_state \<Rightarrow> tab_ref list \<Rightarrow> bar_state" where
  "onSlotchange s assigned =
     (let s0 = s\<lparr>priv_tabs := assigned\<rparr>;
          (newActive, s1) = slot_loop (priv_tabs s0) 0 None s0
      in set_active s1 newActive)"

subsection \<open>\<open>_onKeydown\<close>\<close>

text \<open>
  A JavaScript array read: \<open>undefined\<close> outside the array.
\<close>

definition js_index :: "'a list \<Rightarrow> int \<Rightarrow> 'a option" where
  "js_index xs i = (if 0 \<le> i \<and> i < int (length xs) then Some (xs ! nat i) else None)"

datatype error = TypeError

text \<open>\<open>this.active?.index ?? 0\<close>\<close>

definition oldIdx :: "bar_state \<Rightarrow> int" where
  "oldIdx s = (case priv_active s of None \<Rightarrow> 0 | Some t \<Rightarrow> index (store s t))"

text \<open>Lines 129-138: the new index for a key.\<close>

definition newIdx :: "bar_state \<Rightarrow> string \<Rightarrow> int" where
  "newIdx s key =
     (if key = ''ArrowLeft'' then (if oldIdx s > 0 then oldIdx s - 1 else oldIdx s)
      else if key = ''ArrowRight''
        then (if oldIdx s < int (length (priv_tabs s)) - 1 then oldIdx s + 1 else oldIdx s)
      else oldIdx s)"

text \<open>
  Lines 139-145. When \<open>this._tabs[newIdx]\<close> is \<open>undefined\<close> the setter still runs with
  \<open>undefined\<close>, and reading \<open>tab.updateComplete\<close> then throws: the error carries the
  state reached.
\<close>

definition onKeydown :: "bar_state \<Rightarrow> string \<Rightarrow> (error \<times> bar_state) + bar_state" where
  "onKeydown s key =
     (if newIdx s key \<noteq> oldIdx s then
        (case js_index (priv_tabs s) (newIdx s key) of
           None \<Rightarrow> Inl (TypeError, set_active s None)
         | Some tab \<Rightarrow>
             let s1 = set_active s (Some tab)
             in Inr (s1\<lparr>effects := effects s1 @ [Focus tab]\<rparr>))
      else Inr s)"

text \<open>The step a key asks for: one to the left, one to the right, or none.\<close>

definition key_step :: "string \<Rightarrow> int" where
  "key_step key = (if key = ''ArrowLeft'' then - 1 else if key = ''ArrowRight'' then 1 else 0)"

subsection \<open>The single-active invariant\<close>

text \<open>
  Over a set \<open>T\<close> of tab items: at most one has its flag set; and the stronger property
  that the setter maintains, that a tab whose flag is set is the bar's active tab.
\<close>

definition at_most_one_active :: "tab_ref set \<Rightarrow> bar_state \<Rightarrow> bool" where
  "at_most_one_active T s \<longleftrightarrow>
     (\<forall>a\<in>T. \<forall>b\<in>T. active (store s a) \<and> active (store s b) \<longrightarrow> a = b)"

definition in_sync :: "tab_ref set \<Rightarrow> bar_state \<Rightarrow> bool" where
  "in_sync T s \<longleftrightarrow> (\<forall>t\<in>T. active (store s t) \<longrightarrow> priv_active s = Some t)"

definition claims_active :: "bar_state \<Rightarrow> tab_ref \<Rightarrow> bool" where
  "claims_active s t \<longleftrightarrow> active (store s t) \<or> active_attr (store s t)"


section \<open>The project collaborator\<close>

text \<open>
  A file of the project as the widgets read it: \<open>name\<close>, \<open>label\<close> and \<open>hidden\<close>
  (an absent \<open>hidden\<close> is falsy, so it is a boolean here).
\<close>

record file_entry =
  name :: string
  label :: string
  hidden :: bool

text \<open>
  The project itself (playground-project.ts) is not among the sources. The widgets read
  its \<open>files\<close> and call \<open>isValidNewFilename\<close>, which is taken as a parameter: an
  arbitrary predicate on filenames.
\<close>

record project =
  files :: "file_entry list"
  isValidNewFilename :: "string \<Rightarrow> bool"

text \<open>
  \<open>PlaygroundConnectedElement\<close>, the base class of both widgets, gives them the field
  \<open>_project\<close>, which is \<open>undefined\<close> while no project is connected.
\<close>

record connected_element =
  priv_project :: "project option"

section \<open>The file tab bar (src/playground-tab-bar.ts)\<close>

record playground_tab_bar = connected_element +
  activeFileName :: string
  activeFileIndex :: int

text \<open>The getter \<open>_visibleFiles\<close>, lines 136-138.\<close>

definition visibleFiles :: "playground_tab_bar \<Rightarrow> file_entry list" where
  "visibleFiles s =
     filter (\<lambda>f. \<not> hidden f) (case priv_project s of None \<Rightarrow> [] | Some p \<Rightarrow> files p)"

text \<open>\<open>Array.prototype.findIndex\<close>: the first position that satisfies, or -1.\<close>

fun findIndex :: "('a \<Rightarrow> bool) \<Rightarrow> 'a list \<Rightarrow> int" where
  "findIndex P [] = - 1"
| "findIndex P (x # xs) =
     (if P x then 0 else (let r = findIndex P xs in if r < 0 then - 1 else r + 1))"

text \<open>
  The loop of lines 275-281, from \<open>i\<close> down to 0; it returns the position and the file at
  which the loop returns, or \<open>None\<close> when it runs to its end.
\<close>

function scanBackward :: "file_entry list \<Rightarrow> int \<Rightarrow> (int \<times> file_entry) option" where
  "scanBackward vs i =
     (if i \<ge> 0 then
        (case js_index vs i of
           Some f \<Rightarrow> if \<not> hidden f then Some (i, f) else scanBackward vs (i - 1)
         | None \<Rightarrow> scanBackward vs (i - 1))
      else None)"
  by pat_completeness auto
termination
  by (relation "measure (\<lambda>(vs, i). nat (i + 1))") auto

declare scanBackward.simps [simp del]

text \<open>\<open>_setNewActiveFile\<close>, lines 260-286. A string is truthy when it is not empty.\<close>

definition setNewActiveFile :: "playground_tab_bar \<Rightarrow> playground_tab_bar" where
  "setNewActiveFile s =
     (let index = findIndex (\<lambda>f. name f = activeFileName s) (visibleFiles s) in
      if activeFileName s \<noteq> '''' \<and> index \<ge> 0 then s\<lparr>activeFileIndex := index\<rparr>
      else
        (case scanBackward (visibleFiles s) (activeFileIndex s) of
           Some (i, f) \<Rightarrow> s\<lparr>activeFileName := name f\<rparr>
         | None \<Rightarrow> s\<lparr>activeFileIndex := 0, activeFileName := ''''\<rparr>))"

section \<open>The file system controls (src/playground-file-system-controls.ts)\<close>

datatype control_state = Closed | Menu | Rename | Newfile

text \<open>
  What the controls do to their collaborators, in order: \<open>event.preventDefault()\<close>,
  \<open>_submitButton.click()\<close>, \<open>_surface.close()\<close>, the project's \<open>renameFile\<close> and
  \<open>addFile\<close>, and the dispatch of the \<open>newFile\<close> event.
\<close>

datatype control_effect =
    PreventDefault
  | SubmitClick
  | SurfaceClose
  | RenameFile string string
  | AddFile string
  | NewFileEvent string

text \<open>
  The rendered content that the handlers query: \<open>rendered\<close> says which content the last
  render left in the surface (nothing, the menu, the \<open>rename\<close> content or the
  \<open>newfile\<close> content); \<open>filenameInput\<close> is the value of the \<open>.filename-input\<close>
  element and \<open>submitButton\<close> the \<open>disabled\<close> property of the \<open>.submit-button\<close>
  element, each \<open>None\<close> when the element is not in the rendered content;
  \<open>valueBinding\<close> is the value that the binding \<open>.value=${this.filename || ''}\<close> of
  the \<open>rename\<close> content committed last.
\<close>

record file_system_controls = connected_element +
  state :: control_state
  filename :: "string option"
  rendered :: control_state
  valueBinding :: string
  filenameInput :: "string option"
  submitButton :: "bool option"
  control_effects :: "control_effect list"

text \<open>The getter \<open>_filenameInputValid\<close>, lines 279-285.\<close>

definition filenameInputValid :: "file_system_controls \<Rightarrow> bool" where
  "filenameInputValid c =
     (case priv_project c of
        None \<Rightarrow> False
      | Some p \<Rightarrow>
          (case filenameInput c of
             None \<Rightarrow> False
           | Some v \<Rightarrow> isValidNewFilename p v))"

text \<open>\<open>this.filename || ''\<close>\<close>

definition filenameOrEmpty :: "file_system_controls \<Rightarrow> string" where
  "filenameOrEmpty c = (case filename c of None \<Rightarrow> '''' | Some n \<Rightarrow> n)"

text \<open>
  \<open>render\<close> with \<open>_surfaceContents\<close>, \<open>_rename\<close> and \<open>_newFile\<close> (lines 113-124,
  153-164, 202-243), and the commit of what it returns. The templates are built first,
  so \<open>!this._filenameInputValid\<close>, to which the submit button's \<open>disabled\<close> is bound,
  is read on the input that is in the surface before this render. Then the content is
  committed:
  \<^item> \<open>closed\<close> and \<open>menu\<close> leave neither an input nor a submit button;
  \<^item> \<open>rename\<close> and \<open>newfile\<close> are two templates, so a render that changes the
    content builds a new input and a new button: the new input holds
    \<open>this.filename || ''\<close> in \<open>rename\<close> and is empty in \<open>newfile\<close>;
  \<^item> a render that keeps the content keeps the input and what the user typed into it,
    except that in \<open>rename\<close> the binding of \<open>.value\<close> writes the input again when
    \<open>this.filename || ''\<close> is not the value it committed last.
\<close>

definition render :: "file_system_controls \<Rightarrow> file_system_controls" where
  "render c =
     (let disabled = \<not> filenameInputValid c in
      case state c of
        Closed \<Rightarrow> c\<lparr>rendered := Closed, filenameInput := None, submitButton := None\<rparr>
      | Menu \<Rightarrow> c\<lparr>rendered := Menu, filenameInput := None, submitButton := None\<rparr>
      | Rename \<Rightarrow>
          if rendered c = Rename then
            c\<lparr>valueBinding := filenameOrEmpty c,
              filenameInput :=
                (if filenameOrEmpty c \<noteq> valueBinding c then Some (filenameOrEmpty c)
                 else filenameInput c),
              submitButton := Some disabled\<rparr>
          else
            c\<lparr>rendered := Rename, valueBinding := filenameOrEmpty c,
              filenameInput := Some (filenameOrEmpty c), submitButton := Some disabled\<rparr>
      | Newfile \<Rightarrow>
          if rendered c = Newfile then c\<lparr>submitButton := Some disabled\<rparr>
          else c\<lparr>rendered := Newfile, filenameInput := Some '''', submitButton := Some disabled\<rparr>)"


text \<open>
  The assignments to the reactive properties \<open>state\<close> and \<open>filename\<close>, each followed
  by the update it requests: \<open>_onSurfaceClosed\<close> (lines 245-247) and
  \<open>_onMenuSelectRename\<close> (lines 262-264) of the controls, and \<open>_onClickAddFile\<close> and
  \<open>_onClickMenuButton\<close> of the file tab bar (playground-tab-bar.ts, lines 239-248 and
  288-303), which write the controls' properties whatever state the controls are in.
\<close>

definition onSurfaceClosed :: "file_system_controls \<Rightarrow> file_system_controls" where
  "onSurfaceClosed c = render (c\<lparr>state := Closed\<rparr>)"









section \<open>Concrete inputs\<close>

text \<open>
  A bar over three tabs at addresses 0, 1 and 2. In \<open>fresh_bar\<close> the three tabs are
  slotted, each at the position of its address, and none is active; in \<open>claimed_bar\<close>
  nothing is slotted yet, tab 1 carries the \<open>active\<close> attribute, tab 2 has its
  \<open>active\<close> property set, and the indices are stale.
\<close>

definition plain_tab :: tab where
  "plain_tab = \<lparr>index = 0, active = False, active_attr = False\<rparr>"

definition fresh_bar :: bar_state where
  "fresh_bar =
     \<lparr>store = (\<lambda>t. plain_tab\<lparr>index := int t\<rparr>), priv_tabs = [0, 1, 2], priv_active = None,
      effects = []\<rparr>"

definition claimed_bar :: bar_state where
  "claimed_bar =
     \<lparr>store = (\<lambda>t. plain_tab)
         (0 := \<lparr>index = 7, active = False, active_attr = False\<rparr>,
          1 := \<lparr>index = 7, active = False, active_attr = True\<rparr>,
          2 := \<lparr>index = 0, active = True, active_attr = False\<rparr>),
      priv_tabs = [], priv_active = None, effects = []\<rparr>"

text \<open>
  Three visible files, and a project whose \<open>isValidNewFilename\<close> accepts a name that is
  not empty and not taken.
\<close>

definition file_a :: file_entry where
  "file_a = \<lparr>name = ''a.js'', label = '''', hidden = False\<rparr>"

definition file_b :: file_entry where
  "file_b = \<lparr>name = ''b.js'', label = '''', hidden = False\<rparr>"

definition file_c :: file_entry where
  "file_c = \<lparr>name = ''c.js'', label = '''', hidden = False\<rparr>"

definition project_of :: "file_entry list \<Rightarrow> project" where
  "project_of fs =
     \<lparr>files = fs, isValidNewFilename = (\<lambda>n. n \<noteq> '''' \<and> n \<notin> name ` set fs)\<rparr>"

definition file_bar :: "file_entry list \<Rightarrow> string \<Rightarrow> int \<Rightarrow> playground_tab_bar" where
  "file_bar fs n i = \<lparr>priv_project = Some (project_of fs), activeFileName = n, activeFileIndex = i\<rparr>"





section \<open>Properties of the internal tab bar\<close>

subsection \<open>The tab's property and the setter\<close>

lemma tab_set_active_store:
  "active (store (tab_set_active t v s) u) = (if u = t then v else active (store s u))"
  by (simp add: tab_set_active_def Let_def)

lemma tab_set_active_priv_active: "priv_active (tab_set_active t v s) = priv_active s"
  by (simp add: tab_set_active_def Let_def)

lemma tab_set_active_index: "index (store (tab_set_active t v s) u) = index (store s u)"
  by (simp add: tab_set_active_def Let_def)

lemma tab_set_active_attr:
  "active_attr (store (tab_set_active t v s) u) = active_attr (store s u)"
  by (simp add: tab_set_active_def Let_def)

lemma tab_set_active_priv_tabs: "priv_tabs (tab_set_active t v s) = priv_tabs s"
  by (simp add: tab_set_active_def Let_def)

lemma tab_set_active_False_effects: "effects (tab_set_active t False s) = effects s"
  by (simp add: tab_set_active_def Let_def)

lemmas tab_set_active_simps =
  tab_set_active_store tab_set_active_priv_active tab_set_active_index
  tab_set_active_attr tab_set_active_priv_tabs tab_set_active_False_effects

lemma set_active_priv_active: "priv_active (set_active s tab) = tab"
  by (auto simp: set_active_def set_active_steps_def tab_set_active_simps Let_def
      split: option.splits)

lemma set_active_index: "index (store (set_active s tab) u) = index (store s u)"
  by (auto simp: set_active_def set_active_steps_def tab_set_active_simps Let_def
      split: option.splits)

lemma set_active_priv_tabs: "priv_tabs (set_active s tab) = priv_tabs s"
  by (auto simp: set_active_def set_active_steps_def tab_set_active_simps Let_def
      split: option.splits)

lemma set_active_flag:
  "active (store (set_active s tab) u) =
     (if tab = priv_active s then active (store s u)
      else if tab = Some u then True
      else if priv_active s = Some u then False
      else active (store s u))"
  by (auto simp: set_active_def set_active_steps_def tab_set_active_simps Let_def
      split: option.splits)

lemma set_active_steps_same: "priv_active s = tab \<Longrightarrow> set_active_steps s tab = []"
  by (simp add: set_active_steps_def)

text \<open>
  The three states of a call that changes the active tab, statement by statement.
\<close>

lemma set_active_steps_changed:
  assumes "tab \<noteq> priv_active s"
  shows "set_active_steps s tab =
     [s\<lparr>priv_active := tab\<rparr>,
      (case priv_active s of
         None \<Rightarrow> s\<lparr>priv_active := tab\<rparr>
       | Some old \<Rightarrow> tab_set_active old False (s\<lparr>priv_active := tab\<rparr>)),
      set_active s tab]"
  using assms by (simp add: set_active_def set_active_steps_def Let_def)

text \<open>
  C4. Calling the setter with the tab that is already active is a no-op: the call takes
  the early return, so the state (every flag, and the list of notifications) is what it
  was. Hence a second call with the same argument changes nothing after the first, and
  so does the listener when the notification of the newly active tab comes back to the
  bar.
\<close>

theorem set_active_idempotent:
  "(priv_active s = x \<longrightarrow> set_active_steps s x = [] \<and> set_active s x = s) \<and>
   set_active_steps (set_active s x) x = [] \<and>
   set_active (set_active s x) x = set_active s x \<and>
   activateTab (set_active s x) x = set_active s x"
proof -
  have again: "set_active_steps (set_active s x) x = []"
    by (rule set_active_steps_same) (rule set_active_priv_active)
  have twice: "set_active (set_active s x) x = set_active s x"
    unfolding set_active_def[of "set_active s x"] again by simp
  have listener: "activateTab (set_active s x) x = set_active s x"
    by (simp add: activateTab_def set_active_priv_active split: option.splits)
  show ?thesis
    using again twice listener by (simp add: set_active_def set_active_steps_same)
qed

theorem set_active_idempotent_witness:
  "priv_active (set_active fresh_bar (Some 1)) = Some 1 \<and>
   set_active_steps (set_active fresh_bar (Some 1)) (Some 1) = [] \<and>
   set_active (set_active fresh_bar (Some 1)) (Some 1) = set_active fresh_bar (Some 1) \<and>
   effects (set_active (set_active fresh_bar (Some 1)) (Some 1)) = [Tabchange (Some 1)]"
proof -
  have now: "priv_active (set_active fresh_bar (Some 1)) = Some 1"
    by (simp add: set_active_def set_active_steps_def tab_set_active_def fresh_bar_def
        plain_tab_def Let_def)
  have log: "effects (set_active fresh_bar (Some 1)) = [Tabchange (Some 1)]"
    by (simp add: set_active_def set_active_steps_def tab_set_active_def fresh_bar_def
        plain_tab_def Let_def)
  from set_active_idempotent[of "set_active fresh_bar (Some 1)" "Some 1"] now log
  show ?thesis by simp
qed

subsection \<open>At most one active tab\<close>

lemma in_sync_at_most_one: "in_sync T s \<Longrightarrow> at_most_one_active T s"
  unfolding in_sync_def at_most_one_active_def by (metis option.inject)

lemma set_active_steps_at_most_one:
  assumes sync: "in_sync T s" and mem: "s' \<in> set (set_active_steps s tab)"
  shows "at_most_one_active T s'"
proof (cases "tab = priv_active s")
  case True
  with mem show ?thesis by (simp add: set_active_steps_def)
next
  case False
  define s1 where "s1 = s\<lparr>priv_active := tab\<rparr>"
  define s2 where
    "s2 = (case priv_active s of None \<Rightarrow> s1 | Some old \<Rightarrow> tab_set_active old False s1)"
  define s3 where
    "s3 = (case tab of
             Some t \<Rightarrow> tab_set_active t True s2
           | None \<Rightarrow> s2\<lparr>effects := effects s2 @ [Tabchange None]\<rparr>)"
  from mem False have which: "s' = s1 \<or> s' = s2 \<or> s' = s3"
    by (auto simp: set_active_steps_def Let_def s1_def s2_def s3_def split: option.splits)
  have one1: "at_most_one_active T s1"
    using in_sync_at_most_one[OF sync] by (simp add: at_most_one_active_def s1_def)
  have none2: "\<forall>t\<in>T. \<not> active (store s2 t)"
    using sync
    by (auto simp: in_sync_def s2_def s1_def tab_set_active_store split: option.splits)
  then have one2: "at_most_one_active T s2"
    by (simp add: at_most_one_active_def)
  have one3: "at_most_one_active T s3"
    using none2
    by (auto simp: at_most_one_active_def s3_def tab_set_active_store
        split: option.splits if_splits)
  from which one1 one2 one3 show ?thesis by blast
qed

lemma set_active_in_sync:
  assumes sync: "in_sync T s"
  shows "in_sync T (set_active s tab)"
proof (cases "tab = priv_active s")
  case True
  with sync show ?thesis by (simp add: set_active_def set_active_steps_def)
next
  case False
  have "active (store (set_active s tab) t) \<longrightarrow> tab = Some t" if "t \<in> T" for t
    using sync that False by (auto simp: set_active_flag in_sync_def)
  then show ?thesis by (simp add: in_sync_def set_active_priv_active)
qed

lemma set_active_order:
  assumes old: "priv_active s = Some old" and ne: "old \<noteq> new"
  shows "\<exists>s1 s2 s3. set_active_steps s (Some new) = [s1, s2, s3] \<and>
           active (store s1 new) = active (store s new) \<and>
           \<not> active (store s2 old) \<and> active (store s2 new) = active (store s new) \<and>
           \<not> active (store s3 old) \<and> active (store s3 new)"
proof -
  from old ne have changed: "Some new \<noteq> priv_active s" by simp
  show ?thesis
    unfolding set_active_steps_changed[OF changed]
    using old ne by (simp add: set_active_flag tab_set_active_store)
qed

text \<open>
  C2. Start from a bar in which every tab of \<open>T\<close> whose flag is set is the bar's active
  tab (so at most one flag is set). Then through any sequence of calls of the setter, in
  every state the bar passes through, between the statements of a call as well as after
  it, at most one tab of \<open>T\<close> has its flag set, and the bar ends in a state of the same
  kind. Within one call that replaces the active tab \<open>old\<close> by \<open>new\<close>, the flag of
  \<open>old\<close> is false from the second state on, and the flag of \<open>new\<close> is untouched until
  the third, where it becomes true: the old flag is cleared first, and in between no flag
  may be set.
\<close>

theorem set_active_single_active:
  assumes "in_sync T s"
  shows "(\<forall>s' \<in> set (s # set_active_trace s calls). at_most_one_active T s') \<and>
         in_sync T (set_active_all s calls) \<and>
         (\<forall>old new. priv_active s = Some old \<and> old \<noteq> new \<longrightarrow>
            (\<exists>s1 s2 s3. set_active_steps s (Some new) = [s1, s2, s3] \<and>
               active (store s1 new) = active (store s new) \<and>
               \<not> active (store s2 old) \<and> active (store s2 new) = active (store s new) \<and>
               \<not> active (store s3 old) \<and> active (store s3 new)))"
proof -
  have inv: "(\<forall>s' \<in> set (s # set_active_trace s calls). at_most_one_active T s') \<and>
         in_sync T (set_active_all s calls)"
    using assms
  proof (induction calls arbitrary: s)
    case Nil
    then show ?case by (simp add: in_sync_at_most_one)
  next
    case (Cons tab rest)
    have "in_sync T (set_active s tab)" using Cons.prems by (rule set_active_in_sync)
    from Cons.IH[OF this] Cons.prems show ?case
      by (auto simp: in_sync_at_most_one dest: set_active_steps_at_most_one)
  qed
  with set_active_order[of s] show ?thesis by blast
qed

theorem set_active_single_active_witness:
  "in_sync {0, 1, 2} fresh_bar \<and>
   list_all (at_most_one_active {0, 1, 2})
     (fresh_bar # set_active_trace fresh_bar [Some 1, Some 2, None, Some 0]) \<and>
   length (set_active_trace fresh_bar [Some 1, Some 2, None, Some 0]) = 12 \<and>
   in_sync {0, 1, 2} (set_active_all fresh_bar [Some 1, Some 2, None, Some 0])"
proof -
  have start: "in_sync {0, 1, 2} fresh_bar"
    by (simp add: in_sync_def fresh_bar_def plain_tab_def)
  have len: "length (set_active_trace fresh_bar [Some 1, Some 2, None, Some 0]) = 12"
    by (simp add: set_active_steps_def set_active_priv_active fresh_bar_def Let_def)
  from set_active_single_active[OF start, of "[Some 1, Some 2, None, Some 0]"] start len
  show ?thesis by (simp add: list_all_iff)
qed

subsection \<open>The loop of \<open>_onSlotchange\<close>\<close>

lemma slot_loop_frame:
  "slot_loop ts i na s = (na', s') \<Longrightarrow>
     priv_active s' = priv_active s \<and> priv_tabs s' = priv_tabs s \<and> effects s' = effects s
     \<and> (\<forall>t. active_attr (store s' t) = active_attr (store s t))
     \<and> (\<forall>t. t \<notin> set ts \<longrightarrow> store s' t = store s t)"
proof (induction ts arbitrary: i na s)
  case Nil
  then show ?case by simp
next
  case (Cons tab rest)
  show ?case
    using Cons.prems
    by (auto simp: Let_def tab_set_active_simps tab_set_active_def split: if_splits
        dest!: Cons.IH)
qed

lemma slot_loop_index:
  "slot_loop ts i na s = (na', s') \<Longrightarrow> distinct ts \<Longrightarrow> k < length ts \<Longrightarrow>
     index (store s' (ts ! k)) = i + int k"
proof (induction ts arbitrary: i na s k)
  case Nil
  then show ?case by simp
next
  case (Cons tab rest)
  show ?case
  proof (cases k)
    case 0
    from Cons.prems(2) have notin: "tab \<notin> set rest" by simp
    show ?thesis using Cons.prems(1) notin 0
      by (auto simp: Let_def tab_set_active_simps split: if_splits dest!: slot_loop_frame)
  next
    case (Suc j)
    with Cons.prems have j: "j < length rest" and d: "distinct rest" by simp_all
    show ?thesis using Cons.prems(1) Suc
      by (auto simp: Let_def split: if_splits dest!: Cons.IH[OF _ d j])
  qed
qed

text \<open>Once \<open>newActive\<close> is set, every further tab is deactivated.\<close>

lemma slot_loop_found:
  "slot_loop ts i (Some a) s = (na', s') \<Longrightarrow>
     na' = Some a \<and> (\<forall>t\<in>set ts. \<not> active (store s' t))
     \<and> (\<forall>t. t \<notin> set ts \<longrightarrow> active (store s' t) = active (store s t))"
proof (induction ts arbitrary: i s)
  case Nil
  then show ?case by simp
next
  case (Cons tab rest)
  let ?s1 = "tab_set_active tab False (s\<lparr>store := (store s)(tab := (store s tab)\<lparr>index := i\<rparr>)\<rparr>)"
  from Cons.prems have run: "slot_loop rest (i + 1) (Some a) ?s1 = (na', s')"
    by (simp add: Let_def)
  note ih = Cons.IH[OF run]
  have "\<not> active (store s' tab)"
  proof (cases "tab \<in> set rest")
    case True
    with ih show ?thesis by blast
  next
    case False
    with ih have "active (store s' tab) = active (store ?s1 tab)" by blast
    then show ?thesis by (simp add: tab_set_active_simps)
  qed
  with ih show ?case by (auto simp: tab_set_active_simps)
qed

text \<open>While no tab claims to be active, no flag changes.\<close>

lemma slot_loop_none:
  "slot_loop ts i None s = (na', s') \<Longrightarrow> \<forall>t\<in>set ts. \<not> claims_active s t \<Longrightarrow>
     na' = None \<and> (\<forall>t. active (store s' t) = active (store s t))"
proof (induction ts arbitrary: i s)
  case Nil
  then show ?case by simp
next
  case (Cons tab rest)
  let ?s1 = "s\<lparr>store := (store s)(tab := (store s tab)\<lparr>index := i\<rparr>)\<rparr>"
  have c: "\<And>t. claims_active ?s1 t = claims_active s t" by (simp add: claims_active_def)
  from Cons.prems have run: "slot_loop rest (i + 1) None ?s1 = (na', s')"
    by (simp add: Let_def claims_active_def)
  from Cons.prems(2) have "\<forall>t\<in>set rest. \<not> claims_active ?s1 t" by (simp add: c)
  from Cons.IH[OF run this] show ?case by simp
qed

text \<open>The first tab that claims to be active is the loop's \<open>newActive\<close>.\<close>

lemma slot_loop_first:
  "slot_loop ts i None s = (na', s') \<Longrightarrow> distinct ts \<Longrightarrow> k < length ts \<Longrightarrow>
   claims_active s (ts ! k) \<Longrightarrow> \<forall>j<k. \<not> claims_active s (ts ! j) \<Longrightarrow>
     na' = Some (ts ! k) \<and> active (store s' (ts ! k)) = active (store s (ts ! k))
     \<and> (\<forall>j<length ts. j \<noteq> k \<longrightarrow> \<not> active (store s' (ts ! j)))
     \<and> (\<forall>t. t \<notin> set ts \<longrightarrow> active (store s' t) = active (store s t))"
proof (induction ts arbitrary: i s k)
  case Nil
  then show ?case by simp
next
  case (Cons tab rest)
  let ?s1 = "s\<lparr>store := (store s)(tab := (store s tab)\<lparr>index := i\<rparr>)\<rparr>"
  have c: "\<And>t. claims_active ?s1 t = claims_active s t" by (simp add: claims_active_def)
  from Cons.prems(2) have notin: "tab \<notin> set rest" and d: "distinct rest" by simp_all
  show ?case
  proof (cases k)
    case 0
    with Cons.prems(4) have "claims_active s tab" by simp
    with Cons.prems(1) have run: "slot_loop rest (i + 1) (Some tab) ?s1 = (na', s')"
      by (simp add: Let_def claims_active_def)
    note f = slot_loop_found[OF run]
    from f notin have "active (store s' tab) = active (store s tab)" by simp
    moreover have "\<forall>j<length (tab # rest). j \<noteq> 0 \<longrightarrow> \<not> active (store s' ((tab # rest) ! j))"
      using f by (auto simp: nth_Cons split: nat.splits)
    ultimately show ?thesis using f 0 by simp
  next
    case (Suc m)
    with Cons.prems(5) have unclaimed: "\<not> claims_active s tab" by auto
    with Cons.prems(1) have run: "slot_loop rest (i + 1) None ?s1 = (na', s')"
      by (simp add: Let_def claims_active_def)
    from Cons.prems Suc have m: "m < length rest" "claims_active ?s1 (rest ! m)"
       "\<forall>j<m. \<not> claims_active ?s1 (rest ! j)" by (auto simp: c)
    note ih = Cons.IH[OF run d m]
    from ih notin unclaimed have tabf: "\<not> active (store s' tab)"
      by (simp add: claims_active_def)
    have "\<forall>j<length (tab # rest). j \<noteq> k \<longrightarrow> \<not> active (store s' ((tab # rest) ! j))"
      using ih tabf Suc by (auto simp: nth_Cons split: nat.splits)
    then show ?thesis using ih Suc by simp
  qed
qed

text \<open>
  \<open>_onSlotchange\<close> is the loop from position 0 with no \<open>newActive\<close>, followed by the
  setter.
\<close>

lemma onSlotchange_run:
  obtains na s1 where "slot_loop ts 0 None (s\<lparr>priv_tabs := ts\<rparr>) = (na, s1)"
    and "onSlotchange s ts = set_active s1 na"
proof -
  obtain na s1 where run: "slot_loop ts 0 None (s\<lparr>priv_tabs := ts\<rparr>) = (na, s1)"
    by (cases "slot_loop ts 0 None (s\<lparr>priv_tabs := ts\<rparr>)")
  then have "onSlotchange s ts = set_active s1 na"
    by (simp add: onSlotchange_def Let_def)
  with run that show thesis by blast
qed

text \<open>The first tab that claims to be active wins.\<close>

lemma onSlotchange_winner:
  assumes d: "distinct ts" and k: "k < length ts" and ck: "claims_active s (ts ! k)"
    and first: "\<forall>j<k. \<not> claims_active s (ts ! j)"
  shows "priv_active (onSlotchange s ts) = Some (ts ! k) \<and>
        (\<forall>j<length ts. j \<noteq> k \<longrightarrow> \<not> active (store (onSlotchange s ts) (ts ! j))) \<and>
        (priv_active s \<noteq> Some (ts ! k) \<or> active (store s (ts ! k))
           \<longrightarrow> active (store (onSlotchange s ts) (ts ! k)))"
proof -
  let ?s0 = "s\<lparr>priv_tabs := ts\<rparr>"
  obtain na s1 where run: "slot_loop ts 0 None ?s0 = (na, s1)"
    and res: "onSlotchange s ts = set_active s1 na" by (rule onSlotchange_run)
  have pa1: "priv_active s1 = priv_active s" using slot_loop_frame[OF run] by simp
  from ck first have "claims_active ?s0 (ts ! k)" "\<forall>j<k. \<not> claims_active ?s0 (ts ! j)"
    by (simp_all add: claims_active_def)
  note f = slot_loop_first[OF run d k this]
  from f have na: "na = Some (ts ! k)" by simp
  have others: "\<not> active (store (set_active s1 na) (ts ! j))"
    if "j < length ts" "j \<noteq> k" for j
  proof -
    from that d k have "ts ! j \<noteq> ts ! k" by (simp add: nth_eq_iff_index_eq)
    moreover from f that have "\<not> active (store s1 (ts ! j))" by simp
    ultimately show ?thesis by (auto simp: set_active_flag na)
  qed
  have flag: "active (store (set_active s1 na) (ts ! k))"
    if "priv_active s \<noteq> Some (ts ! k) \<or> active (store s (ts ! k))"
    using that f by (auto simp: set_active_flag na pa1)
  show ?thesis using others flag by (simp add: res set_active_priv_active na)
qed

text \<open>With no tab that claims to be active, none is.\<close>

lemma onSlotchange_no_claim:
  assumes nc: "\<forall>t\<in>set ts. \<not> claims_active s t"
  shows "priv_active (onSlotchange s ts) = None \<and>
        (\<forall>t\<in>set ts. \<not> active (store (onSlotchange s ts) t))"
proof -
  let ?s0 = "s\<lparr>priv_tabs := ts\<rparr>"
  obtain na s1 where run: "slot_loop ts 0 None ?s0 = (na, s1)"
    and res: "onSlotchange s ts = set_active s1 na" by (rule onSlotchange_run)
  from nc have "\<forall>t\<in>set ts. \<not> claims_active ?s0 t" by (simp add: claims_active_def)
  note f = slot_loop_none[OF run this]
  from f have na: "na = None" by simp
  have "\<not> active (store (set_active s1 na) t)" if "t \<in> set ts" for t
  proof -
    from nc that have "\<not> active (store s t)" by (auto simp: claims_active_def)
    with f have "\<not> active (store s1 t)" by simp
    then show ?thesis by (auto simp: set_active_flag na)
  qed
  then show ?thesis by (simp add: res set_active_priv_active na)
qed

text \<open>
  So the bar that \<open>_onSlotchange\<close> leaves is one from which the setter keeps at most one
  of the slotted tabs active, and the listener and the key handler, which change the
  flags through the setter only, keep it so.
\<close>

lemma onSlotchange_in_sync:
  assumes d: "distinct ts"
  shows "in_sync (set ts) (onSlotchange s ts)"
proof -
  have "priv_active (onSlotchange s ts) = Some t"
    if t: "t \<in> set ts" and fl: "active (store (onSlotchange s ts) t)" for t
  proof (cases "find (claims_active s) ts")
    case None
    then have "\<forall>t\<in>set ts. \<not> claims_active s t" by (simp add: find_None_iff)
    from onSlotchange_no_claim[OF this] t fl show ?thesis by blast
  next
    case (Some w)
    then obtain k where k: "k < length ts" "claims_active s (ts ! k)"
      "\<forall>j<k. \<not> claims_active s (ts ! j)" by (auto simp: find_Some_iff)
    from t obtain j where j: "j < length ts" "t = ts ! j" by (auto simp: in_set_conv_nth)
    from onSlotchange_winner[OF d k]
    have w: "priv_active (onSlotchange s ts) = Some (ts ! k)"
      and o: "\<forall>j<length ts. j \<noteq> k \<longrightarrow> \<not> active (store (onSlotchange s ts) (ts ! j))"
      by blast+
    from o j fl have "j = k" by blast
    with w j show ?thesis by simp
  qed
  then show ?thesis by (simp add: in_sync_def)
qed

lemma in_sync_effects: "in_sync T (s\<lparr>effects := e\<rparr>) = in_sync T s"
  by (simp add: in_sync_def)

lemma activateTab_in_sync: "in_sync T s \<Longrightarrow> in_sync T (activateTab s found)"
  by (auto simp: activateTab_def Let_def in_sync_effects set_active_in_sync split: option.splits)

lemma onKeydown_in_sync:
  assumes "in_sync T s"
  shows "case onKeydown s key of Inl (e, s') \<Rightarrow> in_sync T s' | Inr s' \<Rightarrow> in_sync T s'"
  using assms
  by (auto simp: onKeydown_def Let_def in_sync_effects set_active_in_sync split: option.splits)

text \<open>
  C3. After \<open>_onSlotchange\<close> on a list of distinct tabs, the bar holds that list and the
  index of every tab is its position. The bar's active tab is the first tab of the list
  whose \<open>active\<close> property or \<open>active\<close> attribute was set: if that is the tab at position
  \<open>k\<close>, no other tab of the list has its flag set afterwards, and the flag of the winner
  is set (unless it was the bar's active tab already with its property cleared, in which
  case the setter returns early and leaves the property as it was). If no tab claims to
  be active, the bar has no active tab and no tab of the list is flagged.
\<close>

theorem onSlotchange_first_active_wins:
  assumes d: "distinct ts"
  shows "priv_tabs (onSlotchange s ts) = ts \<and>
     (\<forall>i<length ts. index (store (onSlotchange s ts) (ts ! i)) = int i) \<and>
     priv_active (onSlotchange s ts) = find (claims_active s) ts \<and>
     (\<forall>k<length ts. claims_active s (ts ! k) \<and> (\<forall>j<k. \<not> claims_active s (ts ! j)) \<longrightarrow>
        priv_active (onSlotchange s ts) = Some (ts ! k) \<and>
        (\<forall>j<length ts. j \<noteq> k \<longrightarrow> \<not> active (store (onSlotchange s ts) (ts ! j))) \<and>
        (priv_active s \<noteq> Some (ts ! k) \<or> active (store s (ts ! k))
           \<longrightarrow> active (store (onSlotchange s ts) (ts ! k)))) \<and>
     ((\<forall>t\<in>set ts. \<not> claims_active s t) \<longrightarrow>
        priv_active (onSlotchange s ts) = None \<and>
        (\<forall>t\<in>set ts. \<not> active (store (onSlotchange s ts) t)))"
proof -
  obtain na s1 where run: "slot_loop ts 0 None (s\<lparr>priv_tabs := ts\<rparr>) = (na, s1)"
    and res: "onSlotchange s ts = set_active s1 na" by (rule onSlotchange_run)
  have tabs: "priv_tabs (onSlotchange s ts) = ts"
    using slot_loop_frame[OF run] by (simp add: res set_active_priv_tabs)
  have idx: "\<forall>i<length ts. index (store (onSlotchange s ts) (ts ! i)) = int i"
    using slot_loop_index[OF run d] by (simp add: res set_active_index)
  note win = onSlotchange_winner[OF d, of _ s]
  note none = onSlotchange_no_claim[of ts s]
  have fnd: "priv_active (onSlotchange s ts) = find (claims_active s) ts"
  proof (cases "find (claims_active s) ts")
    case None
    then have "\<forall>t\<in>set ts. \<not> claims_active s t" by (simp add: find_None_iff)
    with none None show ?thesis by simp
  next
    case (Some w)
    then obtain k where "k < length ts" "claims_active s (ts ! k)" "w = ts ! k"
      "\<forall>j<k. \<not> claims_active s (ts ! j)" by (auto simp: find_Some_iff)
    with win[of k] Some show ?thesis by simp
  qed
  from tabs idx fnd win none show ?thesis by blast
qed

theorem onSlotchange_first_active_wins_witness:
  "distinct [0, 1, 2 :: nat] \<and>
   priv_tabs (onSlotchange claimed_bar [0, 1, 2]) = [0, 1, 2] \<and>
   index (store (onSlotchange claimed_bar [0, 1, 2]) 0) = 0 \<and>
   index (store (onSlotchange claimed_bar [0, 1, 2]) 1) = 1 \<and>
   index (store (onSlotchange claimed_bar [0, 1, 2]) 2) = 2 \<and>
   priv_active (onSlotchange claimed_bar [0, 1, 2]) = Some 1 \<and>
   active (store (onSlotchange claimed_bar [0, 1, 2]) 1) \<and>
   \<not> active (store (onSlotchange claimed_bar [0, 1, 2]) 0) \<and>
   \<not> active (store (onSlotchange claimed_bar [0, 1, 2]) 2)"
proof -
  have d: "distinct [0, 1, 2 :: nat]" by simp
  note props = onSlotchange_first_active_wins[OF d, of claimed_bar]
  have c0: "\<not> claims_active claimed_bar 0" and c1: "claims_active claimed_bar 1"
    by (simp_all add: claims_active_def claimed_bar_def)
  from props have "\<forall>i<length [0, 1, 2 :: nat].
      index (store (onSlotchange claimed_bar [0, 1, 2]) ([0, 1, 2] ! i)) = int i" by blast
  then have idx: "index (store (onSlotchange claimed_bar [0, 1, 2]) 0) = 0"
    "index (store (onSlotchange claimed_bar [0, 1, 2]) 1) = 1"
    "index (store (onSlotchange claimed_bar [0, 1, 2]) 2) = 2"
    by (simp_all add: All_less_Suc numeral_3_eq_3)
  from props have "priv_active (onSlotchange claimed_bar [0, 1, 2]) = Some ([0, 1, 2] ! 1) \<and>
      (\<forall>j<length [0, 1, 2 :: nat]. j \<noteq> 1 \<longrightarrow>
         \<not> active (store (onSlotchange claimed_bar [0, 1, 2]) ([0, 1, 2] ! j))) \<and>
      (priv_active claimed_bar \<noteq> Some ([0, 1, 2] ! 1) \<or> active (store claimed_bar ([0, 1, 2] ! 1))
         \<longrightarrow> active (store (onSlotchange claimed_bar [0, 1, 2]) ([0, 1, 2] ! 1)))"
    using c0 c1 by (simp add: All_less_Suc numeral_3_eq_3)
  then have win: "priv_active (onSlotchange claimed_bar [0, 1, 2]) = Some 1"
    "active (store (onSlotchange claimed_bar [0, 1, 2]) 1)"
    "\<not> active (store (onSlotchange claimed_bar [0, 1, 2]) 0)"
    "\<not> active (store (onSlotchange claimed_bar [0, 1, 2]) 2)"
    by (simp_all add: All_less_Suc numeral_3_eq_3 claimed_bar_def)
  from props have "priv_tabs (onSlotchange claimed_bar [0, 1, 2]) = [0, 1, 2]" by blast
  with d idx win show ?thesis by simp
qed

subsection \<open>Key navigation\<close>

text \<open>
  C7. When the index of the active tab (0 when there is none) is a position of the bar,
  the new index is that index moved by the key's step and clamped to the positions
  \<open>0 .. n - 1\<close>, so it never wraps around. At (or beyond) the boundary in the direction
  of the key, and whenever the new index is the old one, \<open>_onKeydown\<close> returns the state
  it was given: the active tab, every flag, every index and the list of notifications
  are unchanged.
\<close>

theorem onKeydown_clamped_no_wraparound:
  "(0 \<le> oldIdx s \<and> oldIdx s < int (length (priv_tabs s)) \<longrightarrow>
      newIdx s key = max 0 (min (int (length (priv_tabs s)) - 1) (oldIdx s + key_step key)) \<and>
      0 \<le> newIdx s key \<and> newIdx s key < int (length (priv_tabs s))) \<and>
   (key = ''ArrowLeft'' \<and> oldIdx s \<le> 0 \<longrightarrow>
      newIdx s key = oldIdx s \<and> onKeydown s key = Inr s) \<and>
   (key = ''ArrowRight'' \<and> int (length (priv_tabs s)) - 1 \<le> oldIdx s \<longrightarrow>
      newIdx s key = oldIdx s \<and> onKeydown s key = Inr s) \<and>
   (newIdx s key = oldIdx s \<longrightarrow> onKeydown s key = Inr s)"
proof -
  let ?n = "int (length (priv_tabs s))"
  have clamp: "newIdx s key = max 0 (min (?n - 1) (oldIdx s + key_step key))"
    if "0 \<le> oldIdx s" "oldIdx s < ?n"
    using that by (simp add: newIdx_def key_step_def)
  have range: "0 \<le> newIdx s key \<and> newIdx s key < ?n"
    if "0 \<le> oldIdx s" "oldIdx s < ?n"
    using that unfolding clamp[OF that] by linarith
  have same: "onKeydown s key = Inr s" if "newIdx s key = oldIdx s"
    using that by (simp add: onKeydown_def)
  have left: "newIdx s key = oldIdx s" if "key = ''ArrowLeft''" "oldIdx s \<le> 0"
    using that by (simp add: newIdx_def)
  have right: "newIdx s key = oldIdx s" if "key = ''ArrowRight''" "?n - 1 \<le> oldIdx s"
    using that by (simp add: newIdx_def)
  from clamp range same left right show ?thesis by blast
qed

theorem onKeydown_clamped_no_wraparound_witness:
  "oldIdx (set_active fresh_bar (Some 0)) = 0 \<and>
   length (priv_tabs (set_active fresh_bar (Some 0))) = 3 \<and>
   newIdx (set_active fresh_bar (Some 0)) ''ArrowLeft'' = 0 \<and>
   onKeydown (set_active fresh_bar (Some 0)) ''ArrowLeft'' = Inr (set_active fresh_bar (Some 0)) \<and>
   newIdx (set_active fresh_bar (Some 0)) ''ArrowRight'' = 1"
proof -
  have old: "oldIdx (set_active fresh_bar (Some 0)) = 0"
    by (simp add: oldIdx_def set_active_priv_active set_active_index fresh_bar_def plain_tab_def)
  have len: "length (priv_tabs (set_active fresh_bar (Some 0))) = 3"
    by (simp add: set_active_priv_tabs fresh_bar_def)
  from onKeydown_clamped_no_wraparound[of "set_active fresh_bar (Some 0)" "''ArrowLeft''"]
    onKeydown_clamped_no_wraparound[of "set_active fresh_bar (Some 0)" "''ArrowRight''"]
    old len
  show ?thesis by (simp add: key_step_def)
qed

text \<open>
  C10. With no active tab the old index is 0. So on a bar with at least two tabs and no
  active tab, ArrowRight makes the tab at position 1 the active one and sets its flag (it
  is not the tab at position 0, the tabs being distinct), and ArrowLeft returns the state
  unchanged.
\<close>

theorem onKeydown_no_active_tab:
  assumes "priv_active s = None" and "2 \<le> length (priv_tabs s)"
  shows "oldIdx s = 0 \<and>
     (\<exists>s'. onKeydown s ''ArrowRight'' = Inr s' \<and>
        priv_active s' = Some (priv_tabs s ! 1) \<and>
        active (store s' (priv_tabs s ! 1)) \<and>
        (distinct (priv_tabs s) \<longrightarrow> priv_active s' \<noteq> Some (priv_tabs s ! 0))) \<and>
     onKeydown s ''ArrowLeft'' = Inr s"
proof -
  have old: "oldIdx s = 0" using assms(1) by (simp add: oldIdx_def)
  have left: "onKeydown s ''ArrowLeft'' = Inr s"
    by (simp add: onKeydown_def newIdx_def old)
  have new: "newIdx s ''ArrowRight'' = 1"
    using assms(2) by (simp add: newIdx_def old)
  have js: "js_index (priv_tabs s) 1 = Some (priv_tabs s ! 1)"
    using assms(2) by (simp add: js_index_def)
  let ?t = "priv_tabs s ! 1"
  let ?s1 = "set_active s (Some ?t)"
  let ?s' = "?s1\<lparr>effects := effects ?s1 @ [Focus ?t]\<rparr>"
  have right: "onKeydown s ''ArrowRight'' = Inr ?s'"
    by (simp add: onKeydown_def new old js Let_def)
  have pa: "priv_active ?s' = Some ?t" by (simp add: set_active_priv_active)
  have fl: "active (store ?s' ?t)" using assms(1) by (simp add: set_active_flag)
  have ne: "priv_active ?s' \<noteq> Some (priv_tabs s ! 0)" if "distinct (priv_tabs s)"
  proof -
    from that assms(2) have "(priv_tabs s ! 1 = priv_tabs s ! 0) = ((1::nat) = 0)"
      by (intro nth_eq_iff_index_eq) auto
    then show ?thesis unfolding pa by simp
  qed
  from old left right pa fl ne show ?thesis by blast
qed

theorem onKeydown_no_active_tab_witness:
  "priv_active fresh_bar = None \<and> 2 \<le> length (priv_tabs fresh_bar) \<and>
   distinct (priv_tabs fresh_bar) \<and> priv_tabs fresh_bar ! 1 = 1 \<and>
   (\<exists>s'. onKeydown fresh_bar ''ArrowRight'' = Inr s' \<and> priv_active s' = Some 1 \<and>
      active (store s' 1) \<and> priv_active s' \<noteq> Some 0) \<and>
   onKeydown fresh_bar ''ArrowLeft'' = Inr fresh_bar"
proof -
  have none: "priv_active fresh_bar = None" and two: "2 \<le> length (priv_tabs fresh_bar)"
    and d: "distinct (priv_tabs fresh_bar)" and one: "priv_tabs fresh_bar ! 1 = 1"
    and zero: "priv_tabs fresh_bar ! 0 = 0"
    by (simp_all add: fresh_bar_def)
  from onKeydown_no_active_tab[OF none two] d one zero none two
  show ?thesis by simp
qed

section \<open>Properties of the file tab bar\<close>

subsection \<open>\<open>findIndex\<close> and the backward scan\<close>

lemma findIndex_ge: "- 1 \<le> findIndex P xs"
  by (induction xs) (auto simp: Let_def)

lemma findIndex_neg_iff: "findIndex P xs < 0 \<longleftrightarrow> (\<forall>x\<in>set xs. \<not> P x)"
  using findIndex_ge[of P] by (induction xs) (auto simp: Let_def)

lemma findIndex_first:
  "\<exists>x\<in>set xs. P x \<Longrightarrow>
     \<exists>i<length xs. findIndex P xs = int i \<and> P (xs ! i) \<and> (\<forall>j<i. \<not> P (xs ! j))"
proof (induction xs)
  case Nil
  then show ?case by simp
next
  case (Cons x xs)
  show ?case
  proof (cases "P x")
    case True
    then show ?thesis by (intro exI[of _ 0]) simp
  next
    case False
    with Cons.prems have "\<exists>x\<in>set xs. P x" by simp
    from Cons.IH[OF this] obtain i where i: "i < length xs" "findIndex P xs = int i"
      "P (xs ! i)" "\<forall>j<i. \<not> P (xs ! j)" by blast
    show ?thesis
      using False i by (intro exI[of _ "Suc i"]) (auto simp: Let_def nth_Cons split: nat.splits)
  qed
qed

lemma findIndex_distinct:
  assumes "distinct (map name vs)" and "k < length vs"
  shows "findIndex (\<lambda>g. name g = name (vs ! k)) vs = int k"
proof -
  have ex: "\<exists>x\<in>set vs. name x = name (vs ! k)" using assms(2) by auto
  from findIndex_first[OF ex] obtain i where i: "i < length vs"
    "findIndex (\<lambda>g. name g = name (vs ! k)) vs = int i" "name (vs ! i) = name (vs ! k)" by blast
  from i(1,3) assms have "i = k"
    by (metis distinct_conv_nth length_map nth_map)
  with i(2) show ?thesis by simp
qed

lemma visibleFiles_not_hidden: "f \<in> set (visibleFiles s) \<Longrightarrow> \<not> hidden f"
  by (simp add: visibleFiles_def)

text \<open>
  Over files none of which is hidden, the scan from \<open>i\<close> stops at the first position at or
  below \<open>i\<close> that the list has: at \<open>i\<close> itself when \<open>i\<close> is a position, at the last
  position otherwise; it finds nothing when the list is empty or \<open>i\<close> is negative.
\<close>

lemma scanBackward_visible:
  "\<forall>f\<in>set vs. \<not> hidden f \<Longrightarrow>
     scanBackward vs i =
       (if 0 \<le> i \<and> vs \<noteq> []
        then Some (min i (int (length vs) - 1), vs ! nat (min i (int (length vs) - 1)))
        else None)"
proof (induction vs i rule: scanBackward.induct)
  case (1 vs i)
  show ?case
  proof (cases "0 \<le> i")
    case False
    then show ?thesis by (simp add: scanBackward.simps[of vs i])
  next
    case nonneg: True
    show ?thesis
    proof (cases "i < int (length vs)")
      case True
      with nonneg have "js_index vs i = Some (vs ! nat i)" by (simp add: js_index_def)
      moreover from True nonneg have "vs ! nat i \<in> set vs" by simp
      with "1.prems" have "\<not> hidden (vs ! nat i)" by blast
      moreover from True have "min i (int (length vs) - 1) = i" by simp
      moreover from True nonneg have "vs \<noteq> []" by auto
      ultimately show ?thesis using nonneg by (simp add: scanBackward.simps[of vs i])
    next
      case False
      with nonneg have none: "js_index vs i = None" by (simp add: js_index_def)
      have "scanBackward vs i = scanBackward vs (i - 1)"
        using nonneg none by (simp add: scanBackward.simps[of vs i])
      also have "\<dots> = (if 0 \<le> i - 1 \<and> vs \<noteq> []
        then Some (min (i - 1) (int (length vs) - 1), vs ! nat (min (i - 1) (int (length vs) - 1)))
        else None)"
        using "1.IH"(1)[OF nonneg none "1.prems"] .
      also have "\<dots> = (if 0 \<le> i \<and> vs \<noteq> []
        then Some (min i (int (length vs) - 1), vs ! nat (min i (int (length vs) - 1)))
        else None)"
      proof (cases "vs = []")
        case True
        then show ?thesis by simp
      next
        case ne: False
        then have "0 < length vs" by simp
        then have "0 < int (length vs)" by linarith
        with False have "0 \<le> i - 1"
          "min (i - 1) (int (length vs) - 1) = min i (int (length vs) - 1)"
          by linarith+
        then show ?thesis using nonneg by simp
      qed
      finally show ?thesis .
    qed
  qed
qed

subsection \<open>\<open>_setNewActiveFile\<close>\<close>

lemma setNewActiveFile_gone:
  assumes "activeFileName s = [] \<or> activeFileName s \<notin> name ` set (visibleFiles s)"
  shows "setNewActiveFile s =
     (case scanBackward (visibleFiles s) (activeFileIndex s) of
           Some (i, f) \<Rightarrow> s\<lparr>activeFileName := name f\<rparr>
         | None \<Rightarrow> s\<lparr>activeFileIndex := 0, activeFileName := ''''\<rparr>)"
proof -
  have "activeFileName s = [] \<or> findIndex (\<lambda>f. name f = activeFileName s) (visibleFiles s) < 0"
    using assms by (force simp: findIndex_neg_iff)
  then show ?thesis by (auto simp: setNewActiveFile_def Let_def)
qed

lemma setNewActiveFile_scan_closed:
  assumes gone: "activeFileName s \<notin> name ` set (visibleFiles s)"
    and idx: "0 \<le> activeFileIndex s" and ne: "visibleFiles s \<noteq> []"
  shows "setNewActiveFile s =
     s\<lparr>activeFileName :=
         name (visibleFiles s ! nat (min (activeFileIndex s) (int (length (visibleFiles s)) - 1)))\<rparr>"
proof -
  have vis: "\<forall>f\<in>set (visibleFiles s). \<not> hidden f" by (simp add: visibleFiles_not_hidden)
  show ?thesis
    using gone idx ne by (simp add: setNewActiveFile_gone scanBackward_visible[OF vis])
qed

lemma removed_name_gone:
  assumes "distinct (map name vs)" and "k < length vs"
  shows "name (vs ! k) \<notin> name ` set (take k vs @ drop (Suc k) vs)"
proof -
  have "vs = take k vs @ vs ! k # drop (Suc k) vs"
    using assms(2) by (simp add: id_take_nth_drop)
  then have "distinct (map name (take k vs @ vs ! k # drop (Suc k) vs))"
    using assms(1) by simp
  then show ?thesis by auto
qed

text \<open>The visible files and the scan at the concrete inputs.\<close>

lemma visibleFiles_file_bar:
  "visibleFiles (file_bar fs n i) = filter (\<lambda>f. \<not> hidden f) fs"
  by (simp add: visibleFiles_def file_bar_def project_of_def)

lemma file_bar_fields:
  "activeFileName (file_bar fs n i) = n" "activeFileIndex (file_bar fs n i) = i"
  by (simp_all add: file_bar_def)

lemma names_abc:
  "name file_a = ''a.js''" "name file_b = ''b.js''" "name file_c = ''c.js''"
  "\<not> hidden file_a" "\<not> hidden file_b" "\<not> hidden file_c"
  by (simp_all add: file_a_def file_b_def file_c_def)

text \<open>
  C5. When the active filename is not empty and is the name of a visible file,
  \<open>_setNewActiveFile\<close> changes nothing but the stored index, which becomes the (first)
  position of that name in the visible list.
\<close>

theorem setNewActiveFile_keeps_name:
  assumes "activeFileName s \<noteq> ''''"
    and "activeFileName s \<in> name ` set (visibleFiles s)"
  shows "\<exists>i<length (visibleFiles s).
           name (visibleFiles s ! i) = activeFileName s \<and>
           (\<forall>j<i. name (visibleFiles s ! j) \<noteq> activeFileName s) \<and>
           setNewActiveFile s = s\<lparr>activeFileIndex := int i\<rparr>"
proof -
  from assms(2) have "\<exists>f\<in>set (visibleFiles s). name f = activeFileName s" by auto
  from findIndex_first[OF this] obtain i where i: "i < length (visibleFiles s)"
    "findIndex (\<lambda>f. name f = activeFileName s) (visibleFiles s) = int i"
    "name (visibleFiles s ! i) = activeFileName s"
    "\<forall>j<i. name (visibleFiles s ! j) \<noteq> activeFileName s" by blast
  from i(2) assms(1) have "setNewActiveFile s = s\<lparr>activeFileIndex := int i\<rparr>"
    by (simp add: setNewActiveFile_def Let_def)
  with i show ?thesis by blast
qed

theorem setNewActiveFile_keeps_name_witness:
  "activeFileName (file_bar [file_b, file_c] ''b.js'' 1) \<noteq> '''' \<and>
   activeFileName (file_bar [file_b, file_c] ''b.js'' 1)
     \<in> name ` set (visibleFiles (file_bar [file_b, file_c] ''b.js'' 1)) \<and>
   setNewActiveFile (file_bar [file_b, file_c] ''b.js'' 1) = file_bar [file_b, file_c] ''b.js'' 0"
proof -
  let ?s = "file_bar [file_b, file_c] ''b.js'' 1"
  have vis: "visibleFiles ?s = [file_b, file_c]"
    by (simp add: visibleFiles_file_bar names_abc)
  have nm: "activeFileName ?s = ''b.js''" by (simp add: file_bar_fields)
  have h1: "activeFileName ?s \<noteq> ''''" by (simp add: nm)
  have h2: "activeFileName ?s \<in> name ` set (visibleFiles ?s)" by (simp add: nm vis names_abc)
  from setNewActiveFile_keeps_name[OF h1 h2] obtain i where i: "i < length (visibleFiles ?s)"
    "name (visibleFiles ?s ! i) = activeFileName ?s"
    "setNewActiveFile ?s = ?s\<lparr>activeFileIndex := int i\<rparr>" by blast
  from i(1,2) have "i = 0"
    by (cases i) (simp_all add: vis nm names_abc)
  with i(3) have "setNewActiveFile ?s = file_bar [file_b, file_c] ''b.js'' 0"
    by (simp add: file_bar_def)
  with h1 h2 show ?thesis by simp
qed

text \<open>
  C6. When no file is visible, and also when the active filename is empty or gone and the
  backward scan finds nothing, \<open>_setNewActiveFile\<close> sets the index to 0 and the
  filename to the empty string and changes nothing else. The scan finds nothing exactly when no file is
  visible or the stored index is negative.
\<close>

theorem setNewActiveFile_no_visible_file:
  "(visibleFiles s = [] \<longrightarrow>
      setNewActiveFile s = s\<lparr>activeFileIndex := 0, activeFileName := ''''\<rparr>) \<and>
   ((activeFileName s = '''' \<or> activeFileName s \<notin> name ` set (visibleFiles s)) \<and>
    scanBackward (visibleFiles s) (activeFileIndex s) = None \<longrightarrow>
      setNewActiveFile s = s\<lparr>activeFileIndex := 0, activeFileName := ''''\<rparr>) \<and>
   (scanBackward (visibleFiles s) (activeFileIndex s) = None \<longleftrightarrow>
      visibleFiles s = [] \<or> activeFileIndex s < 0)"
proof -
  have scan: "scanBackward (visibleFiles s) (activeFileIndex s) = None \<longleftrightarrow>
      visibleFiles s = [] \<or> activeFileIndex s < 0"
    by (subst scanBackward_visible) (auto simp: visibleFiles_not_hidden)
  have gone: "setNewActiveFile s = s\<lparr>activeFileIndex := 0, activeFileName := ''''\<rparr>"
    if "activeFileName s = '''' \<or> activeFileName s \<notin> name ` set (visibleFiles s)"
      and "scanBackward (visibleFiles s) (activeFileIndex s) = None"
    using that by (simp add: setNewActiveFile_gone)
  have "setNewActiveFile s = s\<lparr>activeFileIndex := 0, activeFileName := ''''\<rparr>"
    if "visibleFiles s = []"
    using that scan by (intro gone) simp_all
  with scan gone show ?thesis by blast
qed

theorem setNewActiveFile_no_visible_file_witness:
  "visibleFiles (file_bar [] ''b.js'' 1) = [] \<and>
   setNewActiveFile (file_bar [] ''b.js'' 1) = file_bar [] '''' 0 \<and>
   activeFileName (file_bar [file_a] ''b.js'' (- 1))
     \<notin> name ` set (visibleFiles (file_bar [file_a] ''b.js'' (- 1))) \<and>
   scanBackward (visibleFiles (file_bar [file_a] ''b.js'' (- 1)))
     (activeFileIndex (file_bar [file_a] ''b.js'' (- 1))) = None \<and>
   setNewActiveFile (file_bar [file_a] ''b.js'' (- 1)) = file_bar [file_a] '''' 0"
proof -
  let ?e = "file_bar [] ''b.js'' 1"
  let ?s = "file_bar [file_a] ''b.js'' (- 1)"
  have e: "visibleFiles ?e = []" by (simp add: visibleFiles_file_bar)
  have gone: "activeFileName ?s \<notin> name ` set (visibleFiles ?s)"
    by (simp add: visibleFiles_file_bar names_abc file_bar_fields)
  have neg: "activeFileIndex ?s < 0" by (simp add: file_bar_fields)
  from setNewActiveFile_no_visible_file[of ?s] neg
  have scan: "scanBackward (visibleFiles ?s) (activeFileIndex ?s) = None" by blast
  from setNewActiveFile_no_visible_file[of ?e] e
  have "setNewActiveFile ?e = ?e\<lparr>activeFileIndex := 0, activeFileName := ''''\<rparr>" by blast
  then have r1: "setNewActiveFile ?e = file_bar [] '''' 0" by (simp add: file_bar_def)
  from setNewActiveFile_no_visible_file[of ?s] gone scan
  have "setNewActiveFile ?s = ?s\<lparr>activeFileIndex := 0, activeFileName := ''''\<rparr>" by blast
  then have r2: "setNewActiveFile ?s = file_bar [file_a] '''' 0" by (simp add: file_bar_def)
  from e r1 gone scan r2 show ?thesis by simp
qed

text \<open>
  C9. When the active filename is gone and the backward scan stops at position \<open>i\<close> with
  file \<open>f\<close>, then \<open>i\<close> is a position at or below the stored index, and
  \<open>_setNewActiveFile\<close> changes the filename to the name of \<open>f\<close> and nothing else: the
  stored index stays what it was. So when \<open>i\<close> is below the stored index, the stored index
  is not \<open>i\<close>, which (names being unique) is the position of the activated file.
\<close>

theorem setNewActiveFile_scan_keeps_index:
  assumes gone: "activeFileName s \<notin> name ` set (visibleFiles s)"
    and scan: "scanBackward (visibleFiles s) (activeFileIndex s) = Some (i, f)"
  shows "0 \<le> i \<and> i \<le> activeFileIndex s \<and> js_index (visibleFiles s) i = Some f \<and>
         setNewActiveFile s = s\<lparr>activeFileName := name f\<rparr> \<and>
         activeFileIndex (setNewActiveFile s) = activeFileIndex s \<and>
         (i < activeFileIndex s \<longrightarrow> activeFileIndex (setNewActiveFile s) \<noteq> i) \<and>
         (distinct (map name (visibleFiles s)) \<longrightarrow>
            findIndex (\<lambda>g. name g = activeFileName (setNewActiveFile s)) (visibleFiles s) = i)"
proof -
  let ?vs = "visibleFiles s"
  let ?m = "min (activeFileIndex s) (int (length ?vs) - 1)"
  have vis: "\<forall>f\<in>set ?vs. \<not> hidden f" by (simp add: visibleFiles_not_hidden)
  from scan have ne: "0 \<le> activeFileIndex s" "?vs \<noteq> []"
    and i: "i = ?m" and f: "f = ?vs ! nat ?m"
    by (auto simp: scanBackward_visible[OF vis] split: if_splits)
  from ne have len: "0 < int (length ?vs)" by simp
  from ne len i have range: "0 \<le> i" "i \<le> activeFileIndex s" "i < int (length ?vs)"
    by linarith+
  then have js: "js_index ?vs i = Some f" using i f by (simp add: js_index_def)
  have res: "setNewActiveFile s = s\<lparr>activeFileName := name f\<rparr>"
    using gone scan by (simp add: setNewActiveFile_gone)
  have pos: "findIndex (\<lambda>g. name g = activeFileName (setNewActiveFile s)) ?vs = i"
    if d: "distinct (map name ?vs)"
  proof -
    from range have "nat i < length ?vs" by linarith
    from findIndex_distinct[OF d this] range i f show ?thesis by (simp add: res)
  qed
  from range js res pos show ?thesis by simp
qed

theorem setNewActiveFile_scan_keeps_index_witness:
  "activeFileName (file_bar [file_a, file_b] ''c.js'' 2)
     \<notin> name ` set (visibleFiles (file_bar [file_a, file_b] ''c.js'' 2)) \<and>
   scanBackward (visibleFiles (file_bar [file_a, file_b] ''c.js'' 2))
     (activeFileIndex (file_bar [file_a, file_b] ''c.js'' 2)) = Some (1, file_b) \<and>
   setNewActiveFile (file_bar [file_a, file_b] ''c.js'' 2) = file_bar [file_a, file_b] ''b.js'' 2 \<and>
   activeFileIndex (setNewActiveFile (file_bar [file_a, file_b] ''c.js'' 2)) = 2 \<and>
   findIndex (\<lambda>g. name g = activeFileName (setNewActiveFile (file_bar [file_a, file_b] ''c.js'' 2)))
     (visibleFiles (file_bar [file_a, file_b] ''c.js'' 2)) = 1"
proof -
  let ?s = "file_bar [file_a, file_b] ''c.js'' 2"
  have vis: "visibleFiles ?s = [file_a, file_b]"
    by (simp add: visibleFiles_file_bar names_abc)
  have gone: "activeFileName ?s \<notin> name ` set (visibleFiles ?s)"
    by (simp add: vis names_abc file_bar_fields)
  have ix: "activeFileIndex ?s = 2" by (simp add: file_bar_fields)
  have scan: "scanBackward (visibleFiles ?s) (activeFileIndex ?s) = Some (1, file_b)"
    unfolding vis ix by (simp add: scanBackward.simps js_index_def names_abc)
  have d: "distinct (map name (visibleFiles ?s))" by (simp add: vis names_abc)
  note th = setNewActiveFile_scan_keeps_index[OF gone scan]
  from th have "setNewActiveFile ?s = ?s\<lparr>activeFileName := name file_b\<rparr>" by blast
  moreover from th have "activeFileIndex (setNewActiveFile ?s) = activeFileIndex ?s" by blast
  then have "activeFileIndex (setNewActiveFile ?s) = 2" by (simp only: ix)
  moreover from th d
  have "findIndex (\<lambda>g. name g = activeFileName (setNewActiveFile ?s)) (visibleFiles ?s) = 1"
    by blast
  moreover have "?s\<lparr>activeFileName := name file_b\<rparr> = file_bar [file_a, file_b] ''b.js'' 2"
    by (simp add: file_bar_def names_abc)
  ultimately show ?thesis using gone scan by simp
qed

text \<open>
  C1, as the code has it. When the active filename is not the name of a visible file, the
  scan runs backward from the stored index, inclusive, and the first entry it meets
  becomes active: the entry at the stored index when the list still has that position,
  and the last entry otherwise. The stored index is not changed. Hence, when the active
  file at position \<open>k\<close> of a list of uniquely named visible files is removed, the file
  that followed it (now at position \<open>k\<close>) becomes active; only when the removed file was
  the last one does its predecessor become active, and with no file left the filename is
  empty.
\<close>

theorem setNewActiveFile_same_index_or_left:
  "(activeFileName s \<notin> name ` set (visibleFiles s) \<and> 0 \<le> activeFileIndex s \<and>
    visibleFiles s \<noteq> [] \<longrightarrow>
      setNewActiveFile s =
        s\<lparr>activeFileName :=
            name (visibleFiles s !
                    nat (min (activeFileIndex s) (int (length (visibleFiles s)) - 1)))\<rparr>) \<and>
   (distinct (map name vs) \<and> k < length vs \<and>
    visibleFiles s = take k vs @ drop (Suc k) vs \<and>
    activeFileName s = name (vs ! k) \<and> activeFileIndex s = int k \<longrightarrow>
      activeFileName (setNewActiveFile s) =
        (if Suc k < length vs then name (vs ! Suc k)
         else if 0 < k then name (vs ! (k - 1))
         else ''''))"
proof -
  have del: "activeFileName (setNewActiveFile s) =
        (if Suc k < length vs then name (vs ! Suc k)
         else if 0 < k then name (vs ! (k - 1))
         else '''')"
    if d: "distinct (map name vs)" and k: "k < length vs"
      and vis: "visibleFiles s = take k vs @ drop (Suc k) vs"
      and nm: "activeFileName s = name (vs ! k)" and ix: "activeFileIndex s = int k"
  proof -
    have gone: "activeFileName s \<notin> name ` set (visibleFiles s)"
      using removed_name_gone[OF d k] by (simp add: vis nm)
    have len: "length (visibleFiles s) = length vs - 1" using k by (simp add: vis)
    show ?thesis
    proof (cases "length vs = 1")
      case True
      with k have "visibleFiles s = []" by (simp add: vis)
      moreover from True k have "k = 0" by simp
      ultimately show ?thesis
        using True gone by (simp add: setNewActiveFile_gone scanBackward_visible)
    next
      case False
      with k have ne: "visibleFiles s \<noteq> []" using len by auto
      have idx: "0 \<le> activeFileIndex s" by (simp add: ix)
      note closed = setNewActiveFile_scan_closed[OF gone idx ne]
      show ?thesis
      proof (cases "Suc k < length vs")
        case True
        then have "nat (min (activeFileIndex s) (int (length (visibleFiles s)) - 1)) = k"
          unfolding len ix by linarith
        moreover have "visibleFiles s ! k = vs ! Suc k"
          using True by (simp add: vis nth_append)
        ultimately have "setNewActiveFile s = s\<lparr>activeFileName := name (vs ! Suc k)\<rparr>"
          using closed by simp
        then show ?thesis using True by simp
      next
        case last: False
        with k False have kk: "Suc k = length vs" "0 < k" by linarith+
        then have "nat (min (activeFileIndex s) (int (length (visibleFiles s)) - 1)) = k - 1"
          unfolding len ix by linarith
        moreover have "visibleFiles s ! (k - 1) = vs ! (k - 1)"
          using kk by (simp add: vis nth_append)
        ultimately have "setNewActiveFile s = s\<lparr>activeFileName := name (vs ! (k - 1))\<rparr>"
          using closed by simp
        then show ?thesis using last kk by simp
      qed
    qed
  qed
  from del setNewActiveFile_scan_closed[of s] show ?thesis by blast
qed

theorem setNewActiveFile_same_index_or_left_witness:
  "activeFileName (file_bar [file_a, file_c] ''b.js'' 1)
     \<notin> name ` set (visibleFiles (file_bar [file_a, file_c] ''b.js'' 1)) \<and>
   distinct (map name [file_a, file_b, file_c]) \<and>
   visibleFiles (file_bar [file_a, file_c] ''b.js'' 1)
     = take 1 [file_a, file_b, file_c] @ drop (Suc 1) [file_a, file_b, file_c] \<and>
   activeFileName (file_bar [file_a, file_c] ''b.js'' 1) = name ([file_a, file_b, file_c] ! 1) \<and>
   setNewActiveFile (file_bar [file_a, file_c] ''b.js'' 1) = file_bar [file_a, file_c] ''c.js'' 1 \<and>
   activeFileName (setNewActiveFile (file_bar [file_a, file_c] ''b.js'' 1)) = name file_c"
proof -
  let ?s = "file_bar [file_a, file_c] ''b.js'' 1"
  let ?vs = "[file_a, file_b, file_c]"
  have vis: "visibleFiles ?s = [file_a, file_c]"
    by (simp add: visibleFiles_file_bar names_abc)
  have gone: "activeFileName ?s \<notin> name ` set (visibleFiles ?s)"
    by (simp add: vis names_abc file_bar_fields)
  have d: "distinct (map name ?vs)" by (simp add: names_abc)
  have shape: "visibleFiles ?s = take 1 ?vs @ drop (Suc 1) ?vs" by (simp add: vis)
  have nm: "activeFileName ?s = name (?vs ! 1)" by (simp add: file_bar_fields names_abc)
  have ix: "activeFileIndex ?s = int 1" by (simp add: file_bar_fields)
  note th = setNewActiveFile_same_index_or_left[of ?s ?vs 1]
  from th gone ix vis
  have "setNewActiveFile ?s = ?s\<lparr>activeFileName := name ([file_a, file_c] ! 1)\<rparr>"
    by simp
  then have r: "setNewActiveFile ?s = file_bar [file_a, file_c] ''c.js'' 1"
    by (simp add: file_bar_def names_abc)
  from th d shape nm ix have "activeFileName (setNewActiveFile ?s) = name file_c"
    by simp
  with gone d shape nm r show ?thesis by simp
qed

text \<open>
  The example of the specification: \<open>b.js\<close> was active at index 1 of
  \<open>a.js, b.js, c.js\<close> and has been removed. The file that becomes active is \<open>c.js\<close>,
  the successor, and not \<open>a.js\<close>.
\<close>

theorem setNewActiveFile_left_neighbor_counterexample:
  "activeFileName (setNewActiveFile (file_bar [file_a, file_c] ''b.js'' 1)) = ''c.js'' \<and>
   activeFileName (setNewActiveFile (file_bar [file_a, file_c] ''b.js'' 1)) \<noteq> ''a.js''"
  by (simp add: setNewActiveFile_def visibleFiles_file_bar names_abc file_bar_fields Let_def
      scanBackward.simps js_index_def)

section \<open>Properties of the file system controls\<close>















end
